theory Spec2Isabelle
  imports Main "HOL-Library.AList" "HOL-Library.Char_ord" "HOL-Library.List_Lexorder"
    "HOL-Library.Multiset"
begin

section \<open>Data model of the cascading dropdown\<close>

text \<open>
  \<^verbatim>\<open>type FieldValue = string | number | null\<close>. A number is represented by its string
  form, the text that \<^verbatim>\<open>Number.prototype.toString\<close> prints for it (\<^verbatim>\<open>9\<close>, \<^verbatim>\<open>0.5\<close>,
  \<^verbatim>\<open>1e+21\<close>): two numbers other than \<^verbatim>\<open>NaN\<close> are equal to \<^verbatim>\<open>===\<close> and to a \<^verbatim>\<open>Set\<close>
  exactly when they print alike, and the engine does nothing with a number but compare
  it and print it. \<^verbatim>\<open>NaN\<close> is not represented. \<^verbatim>\<open>undefined\<close>, the value of a missing
  property, is \<open>None\<close> of a lookup.
\<close>

datatype FieldValue = Null | Str string | Num string

text \<open>
  \<^verbatim>\<open>DataItem = Record<string, any>\<close> and \<^verbatim>\<open>FilterMap = Record<string, FieldValue>\<close> are
  objects used as dictionaries: association lists read with \<open>map_of\<close> and written with
  \<open>AList.update\<close> (an existing key keeps its place, a new key is appended). Of the values
  of a record only strings, numbers and \<^verbatim>\<open>null\<close> are modelled.

  These are the reads and writes of own properties. Every object also inherits the
  properties of \<^verbatim>\<open>Object.prototype\<close>: a read of one of their names finds the inherited value
  where there is no own property, and a write of \<^verbatim>\<open>__proto__\<close> goes to a setter and makes
  no own property. A name is plain when it is none of them; the association lists are
  the objects as far as plain names go.
\<close>

definition Object_prototype_keys :: "string list" where
  "Object_prototype_keys =
     [''constructor'', ''__defineGetter__'', ''__defineSetter__'', ''hasOwnProperty'',
      ''__lookupGetter__'', ''__lookupSetter__'', ''isPrototypeOf'', ''propertyIsEnumerable'',
      ''toString'', ''valueOf'', ''__proto__'', ''toLocaleString'']"

definition plain :: "string \<Rightarrow> bool" where
  "plain k \<longleftrightarrow> k \<notin> set Object_prototype_keys"

type_synonym DataItem = "(string \<times> FieldValue) list"
type_synonym FilterMap = "(string \<times> FieldValue) list"

record DependencyConfig =
  field :: string
  dependsOn :: "string list"

record DropdownState =
  currentSelections :: FilterMap
  availableOptions :: "(string \<times> FieldValue list) list"
  filteredData :: "DataItem list"

text \<open>
  A listener is a callback with effects of its own on a world \<open>'w\<close> outside the engine
  (a log, a UI); it returns or throws. It does not call back into the engine.
\<close>

datatype 'w outcome = Returned 'w | Threw 'w string

type_synonym 'w ChangeListener =
  "string \<Rightarrow> FieldValue \<Rightarrow> DropdownState \<Rightarrow> 'w \<Rightarrow> 'w outcome"

text \<open>The environment of a run: the listeners' world and the lines written by \<^verbatim>\<open>console.error\<close>.\<close>

type_synonym 'w Env = "'w \<times> string list"

record 'w ReactiveCascadingDropdown =
  data :: "DataItem list"
  dependencies :: "DependencyConfig list"
  state :: FilterMap
  listeners :: "'w ChangeListener list"

section \<open>Library functions of the host language\<close>

text \<open>
  \<^verbatim>\<open>Array.prototype.sort(cmp)\<close>: a stable sort by a comparator whose sign orders two
  elements. Insertion from the right puts an element before the first one it does not
  exceed, so equal elements keep their order.
\<close>

fun insertBy :: "('a \<Rightarrow> 'a \<Rightarrow> int) \<Rightarrow> 'a \<Rightarrow> 'a list \<Rightarrow> 'a list" where
  "insertBy cmp x [] = [x]"
| "insertBy cmp x (y # ys) = (if cmp x y \<le> 0 then x # y # ys else y # insertBy cmp x ys)"

definition Array_sort :: "('a \<Rightarrow> 'a \<Rightarrow> int) \<Rightarrow> 'a list \<Rightarrow> 'a list" where
  "Array_sort cmp xs = foldr (insertBy cmp) xs []"

text \<open>The conversion to a string that \<^verbatim>\<open>sort()\<close> applies to its elements.\<close>

fun ToString :: "FieldValue \<Rightarrow> string" where
  "ToString Null = ''null''"
| "ToString (Str s) = s"
| "ToString (Num n) = n"

text \<open>
  The comparator of \<^verbatim>\<open>sort()\<close> called with no argument: both elements are converted to
  strings, which are compared by code units, lexicographically.
\<close>

definition defaultCompare :: "FieldValue \<Rightarrow> FieldValue \<Rightarrow> int" where
  "defaultCompare x y =
     (let xString = ToString x; yString = ToString y
      in if xString < yString then - 1 else if yString < xString then 1 else 0)"

text \<open>\<^verbatim>\<open>[...new Set(xs)]\<close>: the elements in the order of their first occurrence.\<close>

definition Set_add :: "'a \<Rightarrow> 'a list \<Rightarrow> 'a list" where
  "Set_add x s = (if x \<in> set s then s else s @ [x])"

definition new_Set :: "'a list \<Rightarrow> 'a list" where
  "new_Set xs = fold Set_add xs []"

text \<open>\<^verbatim>\<open>Object.entries\<close>: an object has one property for each of its keys.\<close>

definition Object_entries :: "('k \<times> 'v) list \<Rightarrow> ('k \<times> 'v) list" where
  "Object_entries obj = AList.clearjunk obj"

text \<open>\<^verbatim>\<open>forEach\<close> over calls that may fail to return: the first failure ends the loop.\<close>

fun forEach :: "('a \<Rightarrow> 's \<Rightarrow> 's option) \<Rightarrow> 'a list \<Rightarrow> 's \<Rightarrow> 's option" where
  "forEach f [] s = Some s"
| "forEach f (x # xs) s = (case f x s of None \<Rightarrow> None | Some s' \<Rightarrow> forEach f xs s')"

section \<open>The class ReactiveCascadingDropdown\<close>

definition sortDependencies :: "DependencyConfig list \<Rightarrow> DependencyConfig list" where
  "sortDependencies deps =
     Array_sort (\<lambda>a b. int (length (dependsOn a)) - int (length (dependsOn b))) deps"

definition initializeSelections ::
  "'w ReactiveCascadingDropdown \<Rightarrow> 'w ReactiveCascadingDropdown" where
  "initializeSelections this =
     fold (\<lambda>dep this. this\<lparr>state := AList.update (field dep) Null (state this)\<rparr>)
       (dependencies this) this"

definition constructor ::
  "DataItem list \<Rightarrow> DependencyConfig list \<Rightarrow> 'w ReactiveCascadingDropdown" where
  "constructor dat deps =
     initializeSelections
       \<lparr>data = dat, dependencies = sortDependencies deps, state = [], listeners = []\<rparr>"

text \<open>
  \<^verbatim>\<open>getOptions\<close>: the prerequisite filters are applied one after the other to the data,
  each only when the prerequisite's selection is neither \<^verbatim>\<open>null\<close> nor \<^verbatim>\<open>undefined\<close>.
\<close>

definition applyParentFilter :: "FilterMap \<Rightarrow> string \<Rightarrow> DataItem list \<Rightarrow> DataItem list" where
  "applyParentFilter st parentField filtered =
     (case map_of st parentField of
        None \<Rightarrow> filtered
      | Some parentValue \<Rightarrow>
          if parentValue \<noteq> Null
          then filter (\<lambda>item. map_of item parentField = Some parentValue) filtered
          else filtered)"

definition getOptions :: "'w ReactiveCascadingDropdown \<Rightarrow> string \<Rightarrow> FieldValue list" where
  "getOptions this fld =
     (case find (\<lambda>d. field d = fld) (dependencies this) of
        None \<Rightarrow> []
      | Some dependency \<Rightarrow>
          let filtered = fold (applyParentFilter (state this)) (dependsOn dependency) (data this)
          in Array_sort defaultCompare
               (map the
                 (filter (\<lambda>val. val \<noteq> Some Null \<and> val \<noteq> None)
                   (new_Set (map (\<lambda>item. map_of item fld) filtered)))))"

definition getAllOptions :: "'w ReactiveCascadingDropdown \<Rightarrow> (string \<times> FieldValue list) list" where
  "getAllOptions this =
     fold (\<lambda>dep acc. AList.update (field dep) (getOptions this (field dep)) acc)
       (dependencies this) []"

text \<open>
  \<^verbatim>\<open>getFilteredData\<close>: an entry of the Selection State holds a \<^verbatim>\<open>FieldValue\<close>, never
  \<^verbatim>\<open>undefined\<close>, so of the two tests that let an entry pass unset only the one for
  \<^verbatim>\<open>null\<close> can succeed.
\<close>

definition getFilteredData :: "'w ReactiveCascadingDropdown \<Rightarrow> DataItem list" where
  "getFilteredData this =
     filter (\<lambda>item.
        list_all (\<lambda>(fld, value). value = Null \<or> map_of item fld = Some value)
          (Object_entries (state this)))
       (data this)"

definition getCurrentState :: "'w ReactiveCascadingDropdown \<Rightarrow> DropdownState" where
  "getCurrentState this =
     \<lparr>currentSelections = state this,
      availableOptions = getAllOptions this,
      filteredData = getFilteredData this\<rparr>"

text \<open>
  \<^verbatim>\<open>notifyListeners\<close>: every listener is called inside its own \<^verbatim>\<open>try\<close>; what one throws
  is written to the console and the loop goes on.
\<close>

definition callListener ::
  "string \<Rightarrow> FieldValue \<Rightarrow> DropdownState \<Rightarrow> 'w ChangeListener \<Rightarrow> 'w Env \<Rightarrow> 'w Env" where
  "callListener fld value st listener env =
     (case listener fld value st (fst env) of
        Returned w \<Rightarrow> (w, snd env)
      | Threw w error \<Rightarrow> (w, snd env @ [''Error in dropdown change listener: '' @ error]))"

definition notifyListeners ::
  "'w ReactiveCascadingDropdown \<Rightarrow> string \<Rightarrow> FieldValue \<Rightarrow> DropdownState \<Rightarrow> 'w Env \<Rightarrow> 'w Env" where
  "notifyListeners this fld value st env = fold (callListener fld value st) (listeners this) env"

text \<open>
  \<^verbatim>\<open>resetDependentFields\<close> calls itself once for every declaration that lists the changed
  field, and so on: on a cyclic declaration it never returns. The first argument is the
  depth of call stack left; \<open>None\<close> is the call that does not return (the engine throws
  \<^verbatim>\<open>RangeError\<close> out of \<^verbatim>\<open>select\<close>).
\<close>

fun resetDependentFields ::
  "nat \<Rightarrow> string \<Rightarrow> 'w ReactiveCascadingDropdown \<times> 'w Env \<Rightarrow>
     ('w ReactiveCascadingDropdown \<times> 'w Env) option" where
  "resetDependentFields 0 changedField (this, env) = None"
| "resetDependentFields (Suc depth) changedField (this, env) =
     forEach (\<lambda>dep (this, env).
        let oldValue = map_of (state this) (field dep);
            this1 = this\<lparr>state := AList.update (field dep) Null (state this)\<rparr>
        in case resetDependentFields depth (field dep) (this1, env) of
             None \<Rightarrow> None
           | Some (this2, env2) \<Rightarrow>
               Some (this2,
                 if oldValue \<noteq> Some Null
                 then notifyListeners this2 (field dep) Null (getCurrentState this2) env2
                 else env2))
       (filter (\<lambda>dep. changedField \<in> set (dependsOn dep)) (dependencies this))
       (this, env)"

definition select ::
  "nat \<Rightarrow> string \<Rightarrow> FieldValue \<Rightarrow> 'w ReactiveCascadingDropdown \<times> 'w Env \<Rightarrow>
     (DropdownState \<times> 'w ReactiveCascadingDropdown \<times> 'w Env) option" where
  "select depth fld value = (\<lambda>(this, env).
     let this1 = this\<lparr>state := AList.update fld value (state this)\<rparr>
     in case resetDependentFields depth fld (this1, env) of
          None \<Rightarrow> None
        | Some (this2, env2) \<Rightarrow>
            let updatedState = getCurrentState this2
            in Some (updatedState, this2, notifyListeners this2 fld value updatedState env2))"

definition onChange ::
  "'w ChangeListener \<Rightarrow> 'w ReactiveCascadingDropdown \<Rightarrow> 'w ReactiveCascadingDropdown" where
  "onChange listener this = this\<lparr>listeners := listeners this @ [listener]\<rparr>"


definition getSelectionSequence :: "'w ReactiveCascadingDropdown \<Rightarrow> string list" where
  "getSelectionSequence this = map field (dependencies this)"

section \<open>The fixtures of the source\<close>

definition Product :: "string \<Rightarrow> string \<Rightarrow> string \<Rightarrow> string \<Rightarrow> string \<Rightarrow> DataItem" where
  "Product i n c s b =
     [(''id'', Str i), (''name'', Str n), (''category'', Str c), (''subcategory'', Str s),
      (''brand'', Str b)]"

definition productDependencies :: "DependencyConfig list" where
  "productDependencies =
     [\<lparr>field = ''category'', dependsOn = []\<rparr>,
      \<lparr>field = ''subcategory'', dependsOn = [''category'']\<rparr>,
      \<lparr>field = ''brand'', dependsOn = [''category'', ''subcategory'']\<rparr>,
      \<lparr>field = ''name'', dependsOn = [''category'', ''subcategory'', ''brand'']\<rparr>]"

definition comprehensiveProducts :: "DataItem list" where
  "comprehensiveProducts =
     [Product ''1'' ''iPhone 14'' ''Electronics'' ''Smartphones'' ''Apple'',
      Product ''2'' ''iPhone 13'' ''Electronics'' ''Smartphones'' ''Apple'',
      Product ''3'' ''Galaxy S23'' ''Electronics'' ''Smartphones'' ''Samsung'',
      Product ''4'' ''Galaxy S22'' ''Electronics'' ''Smartphones'' ''Samsung'',
      Product ''5'' ''Pixel 7'' ''Electronics'' ''Smartphones'' ''Google'',
      Product ''6'' ''MacBook Pro'' ''Electronics'' ''Laptops'' ''Apple'',
      Product ''7'' ''MacBook Air'' ''Electronics'' ''Laptops'' ''Apple'',
      Product ''8'' ''Dell XPS 13'' ''Electronics'' ''Laptops'' ''Dell'',
      Product ''9'' ''ThinkPad X1'' ''Electronics'' ''Laptops'' ''Lenovo'',
      Product ''10'' ''Air Max 90'' ''Sports'' ''Footwear'' ''Nike'',
      Product ''11'' ''Stan Smith'' ''Sports'' ''Footwear'' ''Adidas'',
      Product ''12'' ''Chuck Taylor'' ''Sports'' ''Footwear'' ''Converse'',
      Product ''13'' ''Tennis Racket Pro'' ''Sports'' ''Equipment'' ''Wilson'',
      Product ''14'' ''Basketball'' ''Sports'' ''Equipment'' ''Spalding'',
      Product ''15'' ''Basic T-Shirt'' ''Clothing'' ''Casual'' ''H&M'',
      Product ''16'' ''Denim Jacket'' ''Clothing'' ''Casual'' ''Levi's'',
      Product ''17'' ''Hoodie'' ''Clothing'' ''Casual'' ''Nike'',
      Product ''18'' ''Business Suit'' ''Clothing'' ''Formal'' ''Hugo Boss'',
      Product ''19'' ''Dress Shirt'' ''Clothing'' ''Formal'' ''Ralph Lauren'']"

text \<open>
  The listener of the test harness, reduced to what it is called with: it appends the
  changed field and the value to a log, and the whole event to the world.
\<close>

type_synonym Event = "string \<times> FieldValue \<times> DropdownState"

definition recorder :: "Event list ChangeListener" where
  "recorder fld value st w = Returned (w @ [(fld, value, st)])"

text \<open>A new engine over the comprehensive fixture, with the recording listener registered.\<close>

definition newDropdown :: "Event list ReactiveCascadingDropdown" where
  "newDropdown = onChange recorder (constructor comprehensiveProducts productDependencies)"

section \<open>Notions of the specification\<close>

text \<open>
  A record passes the prerequisites \<open>ps\<close> when it agrees with every selection among
  them that is set.
\<close>

definition passes :: "FilterMap \<Rightarrow> string list \<Rightarrow> DataItem \<Rightarrow> bool" where
  "passes st ps item \<longleftrightarrow>
     (\<forall>p \<in> set ps. \<forall>v. map_of st p = Some v \<and> v \<noteq> Null \<longrightarrow> map_of item p = Some v)"

text \<open>
  The declared dependency relation has an edge from a prerequisite to every field declared
  to depend on it; the descendants of a field are the fields that depend on it, directly
  or through other fields.
\<close>

definition dep_rel :: "DependencyConfig list \<Rightarrow> (string \<times> string) set" where
  "dep_rel deps = {(p, field d) | p d. d \<in> set deps \<and> p \<in> set (dependsOn d)}"

definition descendants :: "DependencyConfig list \<Rightarrow> string \<Rightarrow> string set" where
  "descendants deps x = {y. (x, y) \<in> (dep_rel deps)\<^sup>+}"

text \<open>The Selection State holds one entry for each declared field, and no other.\<close>

definition one_entry_per_field :: "'w ReactiveCascadingDropdown \<Rightarrow> bool" where
  "one_entry_per_field this \<longleftrightarrow>
     distinct (map fst (state this)) \<and> fst ` set (state this) = field ` set (dependencies this)"

text \<open>
  One run of the callback of the loop in \<^verbatim>\<open>resetDependentFields\<close>, over the recursive
  call it makes.
\<close>

definition resetStep ::
  "(string \<Rightarrow> 'w ReactiveCascadingDropdown \<times> 'w Env \<Rightarrow>
      ('w ReactiveCascadingDropdown \<times> 'w Env) option) \<Rightarrow>
   DependencyConfig \<Rightarrow> 'w ReactiveCascadingDropdown \<times> 'w Env \<Rightarrow>
     ('w ReactiveCascadingDropdown \<times> 'w Env) option" where
  "resetStep recurse dep = (\<lambda>(this, env).
     let oldValue = map_of (state this) (field dep);
         this1 = this\<lparr>state := AList.update (field dep) Null (state this)\<rparr>
     in case recurse (field dep) (this1, env) of
          None \<Rightarrow> None
        | Some (this2, env2) \<Rightarrow>
            Some (this2,
              if oldValue \<noteq> Some Null
              then notifyListeners this2 (field dep) Null (getCurrentState this2) env2
              else env2))"

text \<open>
  The second engine is the first one with the fields of \<open>S\<close> reset: they are
  \<^verbatim>\<open>null\<close>, every other selection is what it was, and nothing else has changed.
\<close>

definition cascaded ::
  "string set \<Rightarrow> 'w ReactiveCascadingDropdown \<Rightarrow> 'w ReactiveCascadingDropdown \<Rightarrow> bool" where
  "cascaded S this this' \<longleftrightarrow>
     dependencies this' = dependencies this \<and> data this' = data this
     \<and> listeners this' = listeners this
     \<and> (\<forall>y. map_of (state this') y = (if y \<in> S then Some Null else map_of (state this) y))"

text \<open>A record matches the selections when it agrees with every declared field's set selection.\<close>

definition matches_selections :: "'w ReactiveCascadingDropdown \<Rightarrow> DataItem \<Rightarrow> bool" where
  "matches_selections this item \<longleftrightarrow>
     (\<forall>d \<in> set (dependencies this). \<forall>v.
        map_of (state this) (field d) = Some v \<and> v \<noteq> Null \<longrightarrow> map_of item (field d) = Some v)"

text \<open>The engine and the listeners' world that a call of \<^verbatim>\<open>select\<close> leaves behind.\<close>

definition dropdownAfter ::
  "(DropdownState \<times> 'w ReactiveCascadingDropdown \<times> 'w Env) option \<Rightarrow> 'w ReactiveCascadingDropdown" where
  "dropdownAfter r = fst (snd (the r))"

definition worldAfter ::
  "(DropdownState \<times> 'w ReactiveCascadingDropdown \<times> 'w Env) option \<Rightarrow> 'w" where
  "worldAfter r = fst (snd (snd (the r)))"


text \<open>The engine after \<^verbatim>\<open>category = Electronics\<close> alone has been selected on a new engine.\<close>

definition electronicsDropdown :: "Event list ReactiveCascadingDropdown" where
  "electronicsDropdown =
     dropdownAfter (select 5 ''category'' (Str ''Electronics'') (newDropdown, ([], [])))"

text \<open>
  The engine after \<^verbatim>\<open>category = Electronics\<close> and then \<^verbatim>\<open>subcategory = Laptops\<close> have been
  selected.
\<close>

definition laptopsDropdown :: "Event list ReactiveCascadingDropdown" where
  "laptopsDropdown =
     dropdownAfter (select 5 ''subcategory'' (Str ''Laptops'') (electronicsDropdown, ([], [])))"

text \<open>An engine over two records with a numeric field, of the values 9 and 10.\<close>

definition sizesDropdown :: "Event list ReactiveCascadingDropdown" where
  "sizesDropdown =
     constructor [[(''size'', Num ''9'')], [(''size'', Num ''10'')]] [\<lparr>field = ''size'', dependsOn = []\<rparr>]"

text \<open>The place of a field of the fixture in its chain of dependencies.\<close>

definition chainRank :: "string \<Rightarrow> nat" where
  "chainRank f =
     (if f = ''category'' then 0 else if f = ''subcategory'' then 1
      else if f = ''brand'' then 2 else 3)"

text \<open>What an event says: the changed field and its new value.\<close>

definition headline :: "Event \<Rightarrow> string \<times> FieldValue" where
  "headline ev = (fst ev, fst (snd ev))"



text \<open>
  The world a listener leaves behind, whether it returns or throws; the listener that does
  to the world what a given one does, and returns where that one throws; an engine with
  every listener replaced so.
\<close>

fun world_of :: "'w outcome \<Rightarrow> 'w" where
  "world_of (Returned w) = w"
| "world_of (Threw w error) = w"

definition quiet :: "'w ChangeListener \<Rightarrow> 'w ChangeListener" where
  "quiet listener = (\<lambda>fld value st w. Returned (world_of (listener fld value st w)))"

definition quieted :: "'w ReactiveCascadingDropdown \<Rightarrow> 'w ReactiveCascadingDropdown" where
  "quieted this = this\<lparr>listeners := map quiet (listeners this)\<rparr>"

text \<open>
  The reset notifications \<open>evs\<close> of a cascade over the fields \<open>S\<close>, started in the Selection
  State \<open>st\<close>: each carries \<^verbatim>\<open>null\<close> and a view in which its field is \<^verbatim>\<open>null\<close>, for a field
  of \<open>S\<close> that was not \<^verbatim>\<open>null\<close>; every field of \<open>S\<close> that was not \<^verbatim>\<open>null\<close> is notified;
  a notification follows those of all descendants of its field that were not \<^verbatim>\<open>null\<close>;
  and no field is notified twice.
\<close>

definition reset_event :: "Event \<Rightarrow> bool" where
  "reset_event ev \<longleftrightarrow>
     fst (snd ev) = Null \<and> map_of (currentSelections (snd (snd ev))) (fst ev) = Some Null"

definition post_order :: "DependencyConfig list \<Rightarrow> FilterMap \<Rightarrow> Event list \<Rightarrow> bool" where
  "post_order deps st evs \<longleftrightarrow>
     (\<forall>pre ev post. evs = pre @ ev # post \<longrightarrow>
        (\<forall>y \<in> descendants deps (fst ev). map_of st y \<noteq> Some Null \<longrightarrow> y \<in> fst ` set pre))"

definition trace_ok ::
  "DependencyConfig list \<Rightarrow> string set \<Rightarrow> FilterMap \<Rightarrow> Event list \<Rightarrow> bool" where
  "trace_ok deps S st evs \<longleftrightarrow>
     (\<forall>ev \<in> set evs. reset_event ev \<and> fst ev \<in> S \<and> map_of st (fst ev) \<noteq> Some Null)
     \<and> (\<forall>y \<in> S. map_of st y \<noteq> Some Null \<longrightarrow> y \<in> fst ` set evs)
     \<and> post_order deps st evs
     \<and> distinct (map fst evs)"



text \<open>A record agrees with a Selection State when it has the value of every entry that is set.\<close>

definition agrees :: "FilterMap \<Rightarrow> DataItem \<Rightarrow> bool" where
  "agrees st item \<longleftrightarrow>
     (\<forall>f v. map_of st f = Some v \<and> v \<noteq> Null \<longrightarrow> map_of item f = Some v)"

text \<open>The engine after \<^verbatim>\<open>select("color", "red")\<close> on a new engine; no declaration names \<^verbatim>\<open>color\<close>.\<close>

definition colorDropdown :: "Event list ReactiveCascadingDropdown" where
  "colorDropdown = dropdownAfter (select 5 ''color'' (Str ''red'') (newDropdown, ([], [])))"



section \<open>Sorting\<close>

lemma insertBy_insort_key:
  assumes "\<And>a b. (cmp a b \<le> 0) = (key a \<le> key b)"
  shows "insertBy cmp x xs = insort_key key x xs"
  by (induction xs) (simp_all add: assms)

lemma Array_sort_sort_key:
  assumes "\<And>a b. (cmp a b \<le> 0) = (key a \<le> key b)"
  shows "Array_sort cmp xs = sort_key key xs"
  unfolding Array_sort_def sort_key_def
  by (induction xs) (simp_all add: insertBy_insort_key [OF assms])

lemma sortDependencies_sort_key:
  "sortDependencies deps = sort_key (\<lambda>d. length (dependsOn d)) deps"
  unfolding sortDependencies_def by (rule Array_sort_sort_key) auto

lemma defaultCompare_le: "(defaultCompare a b \<le> 0) = (ToString a \<le> ToString b)"
  by (auto simp: defaultCompare_def Let_def)

lemma default_sort_sort_key: "Array_sort defaultCompare xs = sort_key ToString xs"
  by (rule Array_sort_sort_key) (rule defaultCompare_le)

section \<open>Construction\<close>

lemma fold_reset_components:
  "dependencies (fold (\<lambda>dep this. this\<lparr>state := AList.update (field dep) Null (state this)\<rparr>) ds this)
     = dependencies this
   \<and> data (fold (\<lambda>dep this. this\<lparr>state := AList.update (field dep) Null (state this)\<rparr>) ds this)
     = data this
   \<and> listeners (fold (\<lambda>dep this. this\<lparr>state := AList.update (field dep) Null (state this)\<rparr>) ds this)
     = listeners this"
  by (induction ds arbitrary: this) simp_all

lemma dependencies_initializeSelections [simp]:
  "dependencies (initializeSelections this) = dependencies this"
  by (simp add: initializeSelections_def fold_reset_components)

lemma data_initializeSelections [simp]:
  "data (initializeSelections this) = data this"
  by (simp add: initializeSelections_def fold_reset_components)

lemma listeners_initializeSelections [simp]:
  "listeners (initializeSelections this) = listeners this"
  by (simp add: initializeSelections_def fold_reset_components)

lemma dependencies_constructor [simp]:
  "dependencies (constructor dat deps) = sortDependencies deps"
  by (simp add: constructor_def)

section \<open>Options\<close>

lemma set_fold_Set_add: "set (fold Set_add xs acc) = set xs \<union> set acc"
  by (induction xs arbitrary: acc) (auto simp: Set_add_def)

lemma distinct_fold_Set_add: "distinct acc \<Longrightarrow> distinct (fold Set_add xs acc)"
  by (induction xs arbitrary: acc) (auto simp: Set_add_def)

lemma set_new_Set [simp]: "set (new_Set xs) = set xs"
  by (simp add: new_Set_def set_fold_Set_add)

lemma distinct_new_Set [simp]: "distinct (new_Set xs)"
  by (simp add: new_Set_def distinct_fold_Set_add)

lemma applyParentFilter_filter:
  "applyParentFilter st p rows = filter (passes st [p]) rows"
  by (auto simp: applyParentFilter_def passes_def split: option.splits intro: filter_cong)

lemma passes_Cons: "passes st (p # ps) item \<longleftrightarrow> passes st [p] item \<and> passes st ps item"
  by (auto simp: passes_def)

lemma fold_applyParentFilter:
  "fold (applyParentFilter st) ps rows = filter (passes st ps) rows"
proof (induction ps arbitrary: rows)
  case Nil
  show ?case by (simp add: passes_def)
next
  case (Cons p ps)
  have "fold (applyParentFilter st) (p # ps) rows
      = filter (passes st ps) (filter (passes st [p]) rows)"
    by (simp add: Cons.IH applyParentFilter_filter)
  also have "\<dots> = filter (passes st (p # ps)) rows"
    by (simp, rule filter_cong) (auto simp: passes_def)
  finally show ?case .
qed

lemma getOptions_declared:
  assumes "find (\<lambda>d. field d = fld) (dependencies this) = Some dep"
  shows "getOptions this fld =
     sort_key ToString
       (map the (filter (\<lambda>val. val \<noteq> Some Null \<and> val \<noteq> None)
          (new_Set (map (\<lambda>item. map_of item fld)
             (filter (passes (state this) (dependsOn dep)) (data this))))))"
  using assms by (simp add: getOptions_def fold_applyParentFilter default_sort_sort_key)

lemma getOptions_undeclared:
  "find (\<lambda>d. field d = fld) (dependencies this) = None \<Longrightarrow> getOptions this fld = []"
  by (simp add: getOptions_def)

lemma set_getOptions:
  assumes "find (\<lambda>d. field d = fld) (dependencies this) = Some dep"
  shows "set (getOptions this fld) =
     {v. v \<noteq> Null \<and> (\<exists>item \<in> set (data this).
            passes (state this) (dependsOn dep) item \<and> map_of item fld = Some v)}"
proof -
  have "the ` {val \<in> A. val \<noteq> Some Null \<and> val \<noteq> None} = {v. v \<noteq> Null \<and> Some v \<in> A}"
    for A :: "FieldValue option set"
    by (auto simp: image_iff) force
  note the_image = this
  have "set (getOptions this fld)
      = the ` {val \<in> (\<lambda>item. map_of item fld) ` {item \<in> set (data this).
                 passes (state this) (dependsOn dep) item}. val \<noteq> Some Null \<and> val \<noteq> None}"
    by (simp add: getOptions_declared [OF assms])
  also have "\<dots> = {v. v \<noteq> Null \<and> Some v \<in> (\<lambda>item. map_of item fld) ` {item \<in> set (data this).
                 passes (state this) (dependsOn dep) item}}"
    by (rule the_image)
  also have "\<dots> = {v. v \<noteq> Null \<and> (\<exists>item \<in> set (data this).
            passes (state this) (dependsOn dep) item \<and> map_of item fld = Some v)}"
    by (auto simp: image_iff)
  finally show ?thesis .
qed

lemma distinct_getOptions: "distinct (getOptions this fld)"
proof (cases "find (\<lambda>d. field d = fld) (dependencies this)")
  case None
  then show ?thesis by (simp add: getOptions_undeclared)
next
  case (Some dep)
  have "inj_on the {val. val \<noteq> None}" for A :: "FieldValue option set"
    by (auto simp: inj_on_def)
  then show ?thesis
    unfolding getOptions_declared [OF Some]
    by (auto simp: distinct_map intro: inj_on_subset)
qed

lemma sorted_getOptions: "sorted (map ToString (getOptions this fld))"
  by (cases "find (\<lambda>d. field d = fld) (dependencies this)")
     (simp_all add: getOptions_undeclared getOptions_declared)


section \<open>Filtered data\<close>

lemma in_Object_entries: "(k, v) \<in> set (Object_entries obj) \<longleftrightarrow> map_of obj k = Some v"
  unfolding Object_entries_def
  by (metis distinct_clearjunk map_of_clearjunk map_of_eq_Some_iff)

lemma getFilteredData_entries:
  "getFilteredData this =
     filter (\<lambda>item. \<forall>f v. map_of (state this) f = Some v \<and> v \<noteq> Null \<longrightarrow> map_of item f = Some v)
       (data this)"
  unfolding getFilteredData_def
proof (rule filter_cong)
  fix item
  show "list_all (\<lambda>(fld, value). value = Null \<or> map_of item fld = Some value)
          (Object_entries (state this))
      = (\<forall>f v. map_of (state this) f = Some v \<and> v \<noteq> Null \<longrightarrow> map_of item f = Some v)"
    unfolding list_all_iff by (simp add: split_beta) (metis in_Object_entries prod.collapse fst_conv snd_conv)
qed simp

section \<open>The cascade\<close>

lemma resetDependentFields_Suc:
  "resetDependentFields (Suc n) x (this, env) =
     forEach (resetStep (resetDependentFields n))
       (filter (\<lambda>dep. x \<in> set (dependsOn dep)) (dependencies this)) (this, env)"
  by (simp add: resetStep_def [abs_def])

declare resetDependentFields.simps(2) [simp del]

lemma cascaded_trans:
  "cascaded A t t1 \<Longrightarrow> cascaded B t1 t2 \<Longrightarrow> cascaded (A \<union> B) t t2"
  by (auto simp: cascaded_def)

lemma cascaded_update:
  "cascaded {f} t (t\<lparr>state := AList.update f Null (state t)\<rparr>)"
  by (simp add: cascaded_def update_conv')

lemma cascaded_dependencies: "cascaded S t t' \<Longrightarrow> dependencies t' = dependencies t"
  by (simp add: cascaded_def)

lemma resetStep_SomeE:
  assumes "resetStep recurse d (t, e) = Some (t', e')"
  obtains e2 where
    "recurse (field d) (t\<lparr>state := AList.update (field d) Null (state t)\<rparr>, e) = Some (t', e2)"
    "e' = (if map_of (state t) (field d) \<noteq> Some Null
           then notifyListeners t' (field d) Null (getCurrentState t') e2 else e2)"
  using assms by (auto simp: resetStep_def Let_def split: option.splits)

lemma resetStep_cascaded:
  assumes rec: "\<And>x t e t' e'. recurse x (t, e) = Some (t', e')
                  \<Longrightarrow> cascaded (descendants (dependencies t) x) t t'"
    and step: "resetStep recurse d (t, e) = Some (t', e')"
  shows "cascaded (insert (field d) (descendants (dependencies t) (field d))) t t'"
proof -
  let ?t1 = "t\<lparr>state := AList.update (field d) Null (state t)\<rparr>"
  from step obtain e2 where "recurse (field d) (?t1, e) = Some (t', e2)"
    by (rule resetStep_SomeE)
  then have "cascaded (descendants (dependencies ?t1) (field d)) ?t1 t'"
    by (rule rec)
  then have "cascaded (descendants (dependencies t) (field d)) ?t1 t'"
    by simp
  from cascaded_trans [OF cascaded_update this]
  show ?thesis by simp
qed

lemma forEach_cascaded:
  assumes step: "\<And>d t e t' e'. d \<in> set ds \<Longrightarrow> f d (t, e) = Some (t', e')
                  \<Longrightarrow> cascaded (S (dependencies t) d) t t'"
    and run: "forEach f ds (t, e) = Some (t', e')"
  shows "cascaded (\<Union>d \<in> set ds. S (dependencies t) d) t t'"
  using assms
proof (induction ds arbitrary: t e)
  case Nil
  then show ?case by (simp add: cascaded_def)
next
  case (Cons d ds)
  from Cons.prems(2) obtain t1 e1 where first: "f d (t, e) = Some (t1, e1)"
    and rest: "forEach f ds (t1, e1) = Some (t', e')"
    by (auto split: option.splits)
  have c1: "cascaded (S (dependencies t) d) t t1"
    using first by (intro Cons.prems(1)) simp_all
  then have deps: "dependencies t1 = dependencies t"
    by (rule cascaded_dependencies)
  have "cascaded (\<Union>d \<in> set ds. S (dependencies t1) d) t1 t'"
    using rest by (intro Cons.IH [of t1 e1]) (auto intro: Cons.prems(1))
  with c1 have "cascaded (S (dependencies t) d \<union> (\<Union>d \<in> set ds. S (dependencies t) d)) t t'"
    unfolding deps by (rule cascaded_trans)
  then show ?case by simp
qed

lemma dep_rel_iff:
  "(x, y) \<in> dep_rel deps \<longleftrightarrow> (\<exists>d \<in> set deps. field d = y \<and> x \<in> set (dependsOn d))"
  by (auto simp: dep_rel_def)

lemma descendants_unfold:
  "descendants deps x =
     (\<Union>d \<in> set (filter (\<lambda>dep. x \<in> set (dependsOn dep)) deps).
        insert (field d) (descendants deps (field d)))"
proof (intro set_eqI iffI)
  fix y assume "y \<in> descendants deps x"
  then have "(x, y) \<in> (dep_rel deps)\<^sup>+" by (simp add: descendants_def)
  then obtain z where xz: "(x, z) \<in> dep_rel deps" and zy: "(z, y) \<in> (dep_rel deps)\<^sup>*"
    by (auto dest: tranclD)
  from xz obtain d where d: "d \<in> set deps" "field d = z" "x \<in> set (dependsOn d)"
    by (auto simp: dep_rel_iff)
  from zy have "y = z \<or> (z, y) \<in> (dep_rel deps)\<^sup>+"
    by (auto simp: rtrancl_eq_or_trancl)
  with d show "y \<in> (\<Union>d \<in> set (filter (\<lambda>dep. x \<in> set (dependsOn dep)) deps).
        insert (field d) (descendants deps (field d)))"
    by (auto simp: descendants_def)
next
  fix y assume "y \<in> (\<Union>d \<in> set (filter (\<lambda>dep. x \<in> set (dependsOn dep)) deps).
        insert (field d) (descendants deps (field d)))"
  then obtain d where d: "d \<in> set deps" "x \<in> set (dependsOn d)"
    and y: "y = field d \<or> (field d, y) \<in> (dep_rel deps)\<^sup>+"
    by (auto simp: descendants_def)
  from d have "(x, field d) \<in> dep_rel deps" by (auto simp: dep_rel_iff)
  with y show "y \<in> descendants deps x"
    by (auto simp: descendants_def intro: trancl_into_trancl2)
qed

lemma resetDependentFields_cascaded:
  "resetDependentFields n x (t, e) = Some (t', e')
     \<Longrightarrow> cascaded (descendants (dependencies t) x) t t'"
proof (induction n arbitrary: x t e t' e')
  case 0
  then show ?case by simp
next
  case (Suc n)
  let ?ds = "filter (\<lambda>dep. x \<in> set (dependsOn dep)) (dependencies t)"
  from Suc.prems have run: "forEach (resetStep (resetDependentFields n)) ?ds (t, e) = Some (t', e')"
    by (simp only: resetDependentFields_Suc)
  have "cascaded (\<Union>d \<in> set ?ds. insert (field d) (descendants (dependencies t) (field d))) t t'"
    by (rule forEach_cascaded [where S = "\<lambda>deps d. insert (field d) (descendants deps (field d))", OF _ run])
       (rule resetStep_cascaded, rule Suc.IH)
  then show ?case by (simp only: descendants_unfold [of "dependencies t" x])
qed

section \<open>Termination of the cascade\<close>

lemma descendants_declared: "descendants deps x \<subseteq> field ` set deps"
proof
  fix y assume "y \<in> descendants deps x"
  then have "(x, y) \<in> (dep_rel deps)\<^sup>+" by (simp add: descendants_def)
  then obtain z where "(z, y) \<in> dep_rel deps" by (auto dest: tranclD2)
  then show "y \<in> field ` set deps" by (auto simp: dep_rel_iff)
qed

lemma finite_descendants: "finite (descendants deps x)"
  by (rule finite_subset [OF descendants_declared]) simp

lemma card_descendants_le: "card (descendants deps x) \<le> length deps"
proof -
  have "card (descendants deps x) \<le> card (field ` set deps)"
    by (rule card_mono [OF _ descendants_declared]) simp
  also have "\<dots> \<le> card (set deps)" by (rule card_image_le) simp
  also have "\<dots> \<le> length deps" by (rule card_length)
  finally show ?thesis .
qed

lemma descendants_decrease:
  assumes "acyclic (dep_rel deps)" and "(x, y) \<in> dep_rel deps"
  shows "card (descendants deps y) < card (descendants deps x)"
proof (rule psubset_card_mono [OF finite_descendants])
  have "y \<in> descendants deps x" using assms(2) by (auto simp: descendants_def)
  moreover have "y \<notin> descendants deps y"
    using assms(1) by (auto simp: descendants_def acyclic_def)
  moreover have "descendants deps y \<subseteq> descendants deps x"
    using assms(2) by (auto simp: descendants_def intro: trancl_into_trancl2)
  ultimately show "descendants deps y \<subset> descendants deps x" by auto
qed

lemma forEach_returns:
  assumes step: "\<And>d t e. d \<in> set ds \<Longrightarrow> I t \<Longrightarrow> \<exists>t' e'. f d (t, e) = Some (t', e') \<and> I t'"
    and "I t"
  shows "\<exists>t' e'. forEach f ds (t, e) = Some (t', e') \<and> I t'"
  using assms
proof (induction ds arbitrary: t e)
  case Nil
  then show ?case by simp
next
  case (Cons d ds)
  from Cons.prems obtain t1 e1 where first: "f d (t, e) = Some (t1, e1)" and "I t1"
    by (metis list.set_intros(1))
  then obtain t' e' where "forEach f ds (t1, e1) = Some (t', e')" "I t'"
    using Cons.IH [of t1 e1] Cons.prems(1) by (metis list.set_intros(2))
  with first show ?case by auto
qed

lemma resetDependentFields_returns:
  fixes t :: "'w ReactiveCascadingDropdown"
  assumes "acyclic (dep_rel (dependencies t))"
    and "card (descendants (dependencies t) x) < n"
  shows "\<exists>t' e'. resetDependentFields n x (t, e) = Some (t', e')"
  using assms
proof (induction n arbitrary: x t e)
  case 0
  then show ?case by simp
next
  case (Suc n)
  let ?deps = "dependencies t"
  let ?ds = "filter (\<lambda>dep. x \<in> set (dependsOn dep)) ?deps"
  have step: "\<exists>t' e'. resetStep (resetDependentFields n) d (u, e) = Some (t', e')
                \<and> dependencies t' = ?deps"
    if d: "d \<in> set ?ds" and u: "dependencies u = ?deps"
    for d and u :: "'w ReactiveCascadingDropdown" and e
  proof -
    let ?u1 = "u\<lparr>state := AList.update (field d) Null (state u)\<rparr>"
    from d have "(x, field d) \<in> dep_rel ?deps" by (auto simp: dep_rel_iff)
    then have "card (descendants ?deps (field d)) < card (descendants ?deps x)"
      by (rule descendants_decrease [OF Suc.prems(1)])
    with Suc.prems(2) have "card (descendants (dependencies ?u1) (field d)) < n"
      by (simp add: u)
    moreover have "acyclic (dep_rel (dependencies ?u1))"
      using Suc.prems(1) by (simp add: u)
    ultimately obtain t' e2 where r: "resetDependentFields n (field d) (?u1, e) = Some (t', e2)"
      using Suc.IH [of ?u1 "field d" e] by blast
    then have "dependencies t' = ?deps"
      by (auto dest!: resetDependentFields_cascaded cascaded_dependencies simp: u)
    with r show ?thesis by (auto simp: resetStep_def Let_def)
  qed
  have "\<exists>t' e'. forEach (resetStep (resetDependentFields n)) ?ds (t, e) = Some (t', e')
          \<and> dependencies t' = ?deps"
  proof (rule forEach_returns [where I = "\<lambda>u. dependencies u = ?deps"])
    fix d and u :: "'w ReactiveCascadingDropdown" and e
    assume "d \<in> set ?ds" "dependencies u = ?deps"
    then show "\<exists>t' e'. resetStep (resetDependentFields n) d (u, e) = Some (t', e')
                \<and> dependencies t' = ?deps"
      by (rule step)
  qed simp
  then show ?case by (auto simp only: resetDependentFields_Suc)
qed

section \<open>Selecting\<close>

lemma select_SomeE:
  assumes "select n x v (t, e) = Some (view, t', e')"
  obtains e2 where
    "resetDependentFields n x (t\<lparr>state := AList.update x v (state t)\<rparr>, e) = Some (t', e2)"
    "view = getCurrentState t'" "e' = notifyListeners t' x v view e2"
  using assms by (auto simp: select_def Let_def split: option.splits)

lemma select_cascaded:
  assumes "select n x v (t, e) = Some (view, t', e')"
  shows "cascaded (descendants (dependencies t) x) (t\<lparr>state := AList.update x v (state t)\<rparr>) t'"
proof -
  from assms obtain e2 where
    "resetDependentFields n x (t\<lparr>state := AList.update x v (state t)\<rparr>, e) = Some (t', e2)"
    by (rule select_SomeE)
  from resetDependentFields_cascaded [OF this] show ?thesis by simp
qed

lemma select_state:
  assumes "select n x v (t, e) = Some (view, t', e')"
  shows "map_of (state t') y =
           (if y \<in> descendants (dependencies t) x then Some Null
            else if y = x then Some v else map_of (state t) y)"
  using select_cascaded [OF assms] by (simp add: cascaded_def update_conv')

lemma select_components:
  assumes "select n x v (t, e) = Some (view, t', e')"
  shows "dependencies t' = dependencies t" "data t' = data t" "listeners t' = listeners t"
  using select_cascaded [OF assms] by (simp_all add: cascaded_def)

lemma select_returns:
  fixes t :: "'w ReactiveCascadingDropdown"
  assumes "acyclic (dep_rel (dependencies t))" and "length (dependencies t) < n"
  shows "\<exists>view t' e'. select n x v (t, e) = Some (view, t', e')"
proof -
  let ?t1 = "t\<lparr>state := AList.update x v (state t)\<rparr>"
  have "card (descendants (dependencies ?t1) x) < n"
    using card_descendants_le [of "dependencies t" x] assms(2) by simp
  moreover have "acyclic (dep_rel (dependencies ?t1))" using assms(1) by simp
  ultimately obtain t' e2 where "resetDependentFields n x (?t1, e) = Some (t', e2)"
    using resetDependentFields_returns [of ?t1 x n e] by blast
  then show ?thesis by (simp add: select_def Let_def)
qed

lemma not_own_descendant: "acyclic (dep_rel deps) \<Longrightarrow> x \<notin> descendants deps x"
  by (auto simp: descendants_def acyclic_def)

section \<open>Acyclic declarations\<close>

lemma acyclic_dep_relI:
  fixes rank :: "string \<Rightarrow> nat"
  assumes "\<And>d p. d \<in> set deps \<Longrightarrow> p \<in> set (dependsOn d) \<Longrightarrow> rank p < rank (field d)"
  shows "acyclic (dep_rel deps)"
proof (rule acyclic_subset)
  show "acyclic (measure rank)" by (rule wf_acyclic) simp
  show "dep_rel deps \<subseteq> measure rank" using assms by (auto simp: dep_rel_def)
qed

lemma descendants_rank:
  fixes rank :: "string \<Rightarrow> nat"
  assumes "\<And>d p. d \<in> set deps \<Longrightarrow> p \<in> set (dependsOn d) \<Longrightarrow> rank p < rank (field d)"
    and "y \<in> descendants deps x"
  shows "rank x < rank y"
proof -
  from assms(2) have "(x, y) \<in> (dep_rel deps)\<^sup>+" by (simp add: descendants_def)
  then show ?thesis
  proof (induction rule: trancl.induct)
    case (r_into_trancl a b)
    then show ?case using assms(1) by (auto simp: dep_rel_iff)
  next
    case (trancl_into_trancl a b c)
    then have "rank b < rank c" using assms(1) by (auto simp: dep_rel_iff)
    with trancl_into_trancl.IH show ?case by simp
  qed
qed

section \<open>The entries of the Selection State\<close>

lemma forEach_invariant:
  assumes step: "\<And>d s s'. d \<in> set ds \<Longrightarrow> I s \<Longrightarrow> f d s = Some s' \<Longrightarrow> I s'"
    and "I s" and "forEach f ds s = Some s'"
  shows "I s'"
  using assms
proof (induction ds arbitrary: s)
  case Nil
  then show ?case by simp
next
  case (Cons d ds)
  from Cons.prems(3) obtain s1 where first: "f d s = Some s1" and rest: "forEach f ds s1 = Some s'"
    by (auto split: option.splits)
  have 1: "I s1" using Cons.prems(1) [of d s s1] Cons.prems(2) first by simp
  have 2: "\<And>d s s'. d \<in> set ds \<Longrightarrow> I s \<Longrightarrow> f d s = Some s' \<Longrightarrow> I s'"
    using Cons.prems(1) by auto
  show ?case by (rule Cons.IH [OF 2 1 rest])
qed

lemma resetDependentFields_distinct:
  assumes "resetDependentFields n x (t, e) = Some (t', e')"
    and "distinct (map fst (state t))"
  shows "distinct (map fst (state t'))"
  using assms
proof (induction n arbitrary: x t e t' e')
  case 0
  then show ?case by simp
next
  case (Suc n)
  let ?I = "\<lambda>s :: 'a ReactiveCascadingDropdown \<times> 'a Env. distinct (map fst (state (fst s)))"
  have "?I (t', e')"
  proof (rule forEach_invariant [where I = ?I])
    show "forEach (resetStep (resetDependentFields n))
            (filter (\<lambda>dep. x \<in> set (dependsOn dep)) (dependencies t)) (t, e) = Some (t', e')"
      using Suc.prems(1) by (simp only: resetDependentFields_Suc)
    show "?I (t, e)" using Suc.prems(2) by simp
  next
    fix d and s s' :: "'a ReactiveCascadingDropdown \<times> 'a Env"
    assume inv: "?I s" and step: "resetStep (resetDependentFields n) d s = Some s'"
    obtain u eu where s: "s = (u, eu)" by (cases s)
    obtain u' eu' where s': "s' = (u', eu')" by (cases s')
    from step obtain e2 where run:
      "resetDependentFields n (field d) (u\<lparr>state := AList.update (field d) Null (state u)\<rparr>, eu)
         = Some (u', e2)"
      unfolding s s' by (rule resetStep_SomeE)
    have "distinct (map fst (state (u\<lparr>state := AList.update (field d) Null (state u)\<rparr>)))"
      using inv by (simp add: s distinct_update)
    with run have "distinct (map fst (state u'))"
      by (rule Suc.IH)
    then show "?I s'" by (simp add: s')
  qed
  then show ?case by simp
qed

lemma state_fold_reset:
  "state (fold (\<lambda>dep this. this\<lparr>state := AList.update (field dep) Null (state this)\<rparr>) ds this)
     = fold (\<lambda>dep st. AList.update (field dep) Null st) ds (state this)"
  by (induction ds arbitrary: this) simp_all

lemma keys_fold_update:
  "fst ` set (fold (\<lambda>dep st. AList.update (field dep) Null st) ds st) = field ` set ds \<union> fst ` set st"
  by (induction ds arbitrary: st) (auto simp: dom_update)

lemma distinct_fold_update:
  "distinct (map fst st) \<Longrightarrow> distinct (map fst (fold (\<lambda>dep st. AList.update (field dep) Null st) ds st))"
  by (induction ds arbitrary: st) (simp_all add: distinct_update)

lemma map_of_fold_update:
  "map_of (fold (\<lambda>dep st. AList.update (field dep) Null st) ds st) y
     = (if y \<in> field ` set ds then Some Null else map_of st y)"
  by (induction ds arbitrary: st) (auto simp: update_conv')

lemma initializeSelections_entries:
  "one_entry_per_field this \<Longrightarrow> one_entry_per_field (initializeSelections this)"
  by (auto simp: one_entry_per_field_def initializeSelections_def state_fold_reset
      keys_fold_update distinct_fold_update fold_reset_components)

lemma set_sortDependencies [simp]: "set (sortDependencies deps) = set deps"
  by (simp add: sortDependencies_sort_key)


lemma select_keys:
  assumes "select n x v (t, e) = Some (view, t', e')"
  shows "fst ` set (state t') = insert x (fst ` set (state t)) \<union> descendants (dependencies t) x"
proof -
  have "fst ` set (state t') = dom (map_of (state t'))"
    by (simp add: dom_map_of_conv_image_fst)
  also have "\<dots> = insert x (dom (map_of (state t))) \<union> descendants (dependencies t) x"
    by (auto simp: dom_def select_state [OF assms])
  finally show ?thesis by (simp add: dom_map_of_conv_image_fst)
qed

lemma select_distinct:
  assumes "select n x v (t, e) = Some (view, t', e')" and "distinct (map fst (state t))"
  shows "distinct (map fst (state t'))"
proof -
  from assms(1) obtain e2 where
    "resetDependentFields n x (t\<lparr>state := AList.update x v (state t)\<rparr>, e) = Some (t', e2)"
    by (rule select_SomeE)
  from resetDependentFields_distinct [OF this] assms(2)
  show ?thesis by (simp add: distinct_update)
qed

lemma select_entries:
  assumes "select n x v (t, e) = Some (view, t', e')" and "one_entry_per_field t"
    and "x \<in> field ` set (dependencies t)"
  shows "one_entry_per_field t'"
proof -
  have "descendants (dependencies t) x \<subseteq> field ` set (dependencies t)"
    by (rule descendants_declared)
  then show ?thesis
    using assms(2,3) select_keys [OF assms(1)] select_distinct [OF assms(1)]
      select_components(1) [OF assms(1)]
    by (auto simp: one_entry_per_field_def)
qed

section \<open>Narrowing\<close>

lemma find_field: "find (\<lambda>d. field d = f) deps = Some dep \<Longrightarrow> field dep = f"
  by (auto simp: find_Some_iff)


section \<open>Listeners that throw\<close>







lemma quieted_simps [simp]:
  "data (quieted t) = data t" "dependencies (quieted t) = dependencies t"
  "state (quieted t) = state t" "listeners (quieted t) = map quiet (listeners t)"
  by (simp_all add: quieted_def)


lemma getOptions_quieted [simp]: "getOptions (quieted t) fld = getOptions t fld"
  by (simp add: getOptions_def split: option.splits)

lemma getCurrentState_quieted [simp]: "getCurrentState (quieted t) = getCurrentState t"
  by (simp add: getCurrentState_def getAllOptions_def getFilteredData_def)







section \<open>The notifications of a cascade\<close>

lemma notifyListeners_recorder:
  "listeners t = [recorder] \<Longrightarrow> notifyListeners t fld v st (w, c) = (w @ [(fld, v, st)], c)"
  by (simp add: notifyListeners_def callListener_def recorder_def)

lemma trace_ok_Nil: "trace_ok deps {} st []"
  by (simp add: trace_ok_def post_order_def)

lemma post_order_append:
  assumes A: "trace_ok deps A st evsA" and B: "trace_ok deps B st1 evsB"
    and st1: "\<And>y. map_of st1 y = (if y \<in> A then Some Null else map_of st y)"
  shows "post_order deps st (evsA @ evsB)"
  unfolding post_order_def
proof (intro allI impI ballI)
  fix pre ev post y
  assume split: "evsA @ evsB = pre @ ev # post"
    and y: "y \<in> descendants deps (fst ev)" "map_of st y \<noteq> Some Null"
  from split consider
      (left) post' where "evsA = pre @ ev # post'"
    | (right) pre' where "pre = evsA @ pre'" "evsB = pre' @ ev # post"
    by (auto simp: append_eq_append_conv2 append_eq_Cons_conv Cons_eq_append_conv)
  then show "y \<in> fst ` set pre"
  proof cases
    case left
    with A y show ?thesis unfolding trace_ok_def post_order_def by blast
  next
    case right
    show ?thesis
    proof (cases "y \<in> A")
      case True
      with A y have "y \<in> fst ` set evsA" unfolding trace_ok_def by blast
      then show ?thesis by (auto simp: right(1))
    next
      case False
      with y st1 have "map_of st1 y \<noteq> Some Null" by simp
      with B right(2) y(1) have "y \<in> fst ` set pre'"
        unfolding trace_ok_def post_order_def by blast
      then show ?thesis by (auto simp: right(1))
    qed
  qed
qed

lemma trace_ok_append:
  assumes A: "trace_ok deps A st evsA" and B: "trace_ok deps B st1 evsB"
    and st1: "\<And>y. map_of st1 y = (if y \<in> A then Some Null else map_of st y)"
  shows "trace_ok deps (A \<union> B) st (evsA @ evsB)"
proof -
  have keep: "map_of st y \<noteq> Some Null \<and> y \<notin> A" if "map_of st1 y \<noteq> Some Null" for y
    using that st1 [of y] by (auto split: if_splits)
  have 1: "\<forall>ev \<in> set (evsA @ evsB).
      reset_event ev \<and> fst ev \<in> A \<union> B \<and> map_of st (fst ev) \<noteq> Some Null"
    using A B keep unfolding trace_ok_def by auto
  have 2: "\<forall>y \<in> A \<union> B. map_of st y \<noteq> Some Null \<longrightarrow> y \<in> fst ` set (evsA @ evsB)"
  proof (intro ballI impI)
    fix y assume y: "y \<in> A \<union> B" "map_of st y \<noteq> Some Null"
    show "y \<in> fst ` set (evsA @ evsB)"
    proof (cases "y \<in> A")
      case True
      with A y show ?thesis unfolding trace_ok_def by auto
    next
      case False
      with y st1 have "y \<in> B" "map_of st1 y \<noteq> Some Null" by auto
      with B show ?thesis unfolding trace_ok_def by auto
    qed
  qed
  have 3: "distinct (map fst (evsA @ evsB))"
  proof -
    have "distinct (map fst evsA)" "distinct (map fst evsB)"
      using A B unfolding trace_ok_def by blast+
    moreover have "fst ` set evsA \<inter> fst ` set evsB = {}"
    proof -
      have "fst a \<noteq> fst b" if ab: "a \<in> set evsA" "b \<in> set evsB" for a b
      proof -
        from A ab(1) have "fst a \<in> A" unfolding trace_ok_def by blast
        moreover from B ab(2) have "map_of st1 (fst b) \<noteq> Some Null"
          unfolding trace_ok_def by blast
        then have "fst b \<notin> A" using keep by blast
        ultimately show ?thesis by auto
      qed
      then show ?thesis by (auto simp: image_iff) 
    qed
    ultimately show ?thesis by simp
  qed
  from 1 2 3 post_order_append [OF A B st1] show ?thesis
    unfolding trace_ok_def by (intro conjI)
qed

lemma post_orderD:
  "post_order deps st evs \<Longrightarrow> evs = pre @ ev # post \<Longrightarrow> y \<in> descendants deps (fst ev)
     \<Longrightarrow> map_of st y \<noteq> Some Null \<Longrightarrow> y \<in> fst ` set pre"
  unfolding post_order_def by blast

lemma trace_ok_event:
  "trace_ok deps S st evs \<Longrightarrow> ev \<in> set evs
     \<Longrightarrow> reset_event ev \<and> fst ev \<in> S \<and> map_of st (fst ev) \<noteq> Some Null"
  unfolding trace_ok_def by blast

lemma trace_ok_all:
  "trace_ok deps S st evs \<Longrightarrow> y \<in> S \<Longrightarrow> map_of st y \<noteq> Some Null \<Longrightarrow> y \<in> fst ` set evs"
  unfolding trace_ok_def by blast

lemma trace_ok_post_order: "trace_ok deps S st evs \<Longrightarrow> post_order deps st evs"
  unfolding trace_ok_def by blast

lemma trace_ok_distinct: "trace_ok deps S st evs \<Longrightarrow> distinct (map fst evs)"
  unfolding trace_ok_def by blast

lemma descendants_trans:
  "y \<in> descendants deps x \<Longrightarrow> z \<in> descendants deps y \<Longrightarrow> z \<in> descendants deps x"
  by (auto simp: descendants_def)

lemma trace_ok_step:
  assumes ac: "acyclic (dep_rel deps)"
    and inner: "trace_ok deps (descendants deps f) st1 evs1"
    and st1: "\<And>y. map_of st1 y = (if y = f then Some Null else map_of st y)"
    and view: "map_of (currentSelections view) f = Some Null"
  shows "trace_ok deps (insert f (descendants deps f)) st
           (evs1 @ (if map_of st f \<noteq> Some Null then [(f, Null, view)] else []))"
proof -
  let ?last = "if map_of st f \<noteq> Some Null then [(f, Null, view)] else []"
  have own: "f \<notin> descendants deps f" by (rule not_own_descendant [OF ac])
  have below: "map_of st1 y = map_of st y" if "y \<in> descendants deps f" for y
    using that own st1 [of y] by auto
  have in1: "reset_event ev \<and> fst ev \<in> descendants deps f \<and> map_of st1 (fst ev) \<noteq> Some Null"
    if "ev \<in> set evs1" for ev
    using inner that by (rule trace_ok_event)
  have all1: "y \<in> fst ` set evs1" if "y \<in> descendants deps f" "map_of st y \<noteq> Some Null" for y
  proof -
    from that have "map_of st1 y \<noteq> Some Null" by (simp add: below)
    with inner that(1) show ?thesis by (rule trace_ok_all)
  qed
  have 1: "\<forall>ev \<in> set (evs1 @ ?last).
      reset_event ev \<and> fst ev \<in> insert f (descendants deps f) \<and> map_of st (fst ev) \<noteq> Some Null"
  proof
    fix ev assume "ev \<in> set (evs1 @ ?last)"
    then consider "ev \<in> set evs1" | "ev = (f, Null, view)" "map_of st f \<noteq> Some Null"
      by (auto split: if_splits)
    then show "reset_event ev \<and> fst ev \<in> insert f (descendants deps f)
        \<and> map_of st (fst ev) \<noteq> Some Null"
    proof cases
      case 1
      from in1 [OF 1] below [of "fst ev"] show ?thesis by auto
    next
      case 2
      then show ?thesis using view by (simp add: reset_event_def)
    qed
  qed
  have 2: "\<forall>y \<in> insert f (descendants deps f).
      map_of st y \<noteq> Some Null \<longrightarrow> y \<in> fst ` set (evs1 @ ?last)"
  proof (intro ballI impI)
    fix y assume y: "y \<in> insert f (descendants deps f)" "map_of st y \<noteq> Some Null"
    show "y \<in> fst ` set (evs1 @ ?last)"
    proof (cases "y = f")
      case True
      with y(2) show ?thesis by simp
    next
      case False
      with y all1 [of y] show ?thesis by auto
    qed
  qed
  have 3: "post_order deps st (evs1 @ ?last)"
    unfolding post_order_def
  proof (intro allI impI ballI)
    fix pre ev post y
    assume split: "evs1 @ ?last = pre @ ev # post"
      and y: "y \<in> descendants deps (fst ev)" "map_of st y \<noteq> Some Null"
    from split consider
        (inner) post' where "evs1 = pre @ ev # post'"
      | (last) "pre = evs1" "ev = (f, Null, view)"
      by (auto simp: append_eq_append_conv2 append_eq_Cons_conv Cons_eq_append_conv
          split: if_splits)
    then show "y \<in> fst ` set pre"
    proof cases
      case inner
      then have "ev \<in> set evs1" by simp
      then have "fst ev \<in> descendants deps f" using in1 by blast
      from this y(1) have "y \<in> descendants deps f" by (rule descendants_trans)
      with y(2) have "map_of st1 y \<noteq> Some Null" by (simp add: below)
      with trace_ok_post_order [OF \<open>trace_ok deps (descendants deps f) st1 evs1\<close>] inner y(1)
      show ?thesis by (rule post_orderD)
    next
      case last
      have "fst ev = f" by (simp add: last(2))
      with y have "y \<in> descendants deps f" by simp
      then have "y \<in> fst ` set evs1" using y(2) by (rule all1)
      then show ?thesis by (simp add: last(1))
    qed
  qed
  have 4: "distinct (map fst (evs1 @ ?last))"
  proof -
    have "f \<notin> fst ` set evs1" using in1 own by auto
    then show ?thesis using trace_ok_distinct [OF inner] by simp
  qed
  from 1 2 3 4 show ?thesis unfolding trace_ok_def by (intro conjI)
qed

lemma forEach_trace:
  assumes step: "\<And>d u wu u' envu. d \<in> set ds \<Longrightarrow> dependencies u = deps
        \<Longrightarrow> listeners u = [recorder] \<Longrightarrow> f d (u, (wu, c)) = Some (u', envu)
        \<Longrightarrow> cascaded (S d) u u' \<and> (\<exists>evs. envu = (wu @ evs, c) \<and> trace_ok deps (S d) (state u) evs)"
    and "dependencies t = deps" and "listeners t = [recorder]"
    and "forEach f ds (t, (w, c)) = Some (t', env')"
  shows "cascaded (\<Union>d \<in> set ds. S d) t t'
         \<and> (\<exists>evs. env' = (w @ evs, c) \<and> trace_ok deps (\<Union>d \<in> set ds. S d) (state t) evs)"
  using assms
proof (induction ds arbitrary: t w)
  case Nil
  then have "t' = t" "env' = (w @ [], c)" by auto
  then show ?case
    by (intro conjI exI [of _ "[]"]) (simp_all add: cascaded_def trace_ok_Nil)
next
  case (Cons d ds)
  from Cons.prems(4) obtain t1 e1 where first: "f d (t, (w, c)) = Some (t1, e1)"
    and rest: "forEach f ds (t1, e1) = Some (t', env')"
    by (auto split: option.splits)
  from Cons.prems(1) [OF list.set_intros(1) Cons.prems(2,3) first]
  obtain evs1 where c1: "cascaded (S d) t t1" and e1: "e1 = (w @ evs1, c)"
    and tr1: "trace_ok deps (S d) (state t) evs1" by blast
  from c1 Cons.prems(2,3) have t1: "dependencies t1 = deps" "listeners t1 = [recorder]"
    by (simp_all add: cascaded_def)
  have stepds: "cascaded (S d') u u'
        \<and> (\<exists>evs. envu = (wu @ evs, c) \<and> trace_ok deps (S d') (state u) evs)"
    if "d' \<in> set ds" "dependencies u = deps" "listeners u = [recorder]"
      "f d' (u, (wu, c)) = Some (u', envu)" for d' u wu u' envu
    using Cons.prems(1) [of d' u wu u' envu] that by simp
  from Cons.IH [OF stepds t1 rest [unfolded e1]]
  have c2: "cascaded (\<Union>d \<in> set ds. S d) t1 t'"
    and ex2: "\<exists>evs. env' = ((w @ evs1) @ evs, c)
        \<and> trace_ok deps (\<Union>d \<in> set ds. S d) (state t1) evs"
    by blast+
  from ex2 obtain evs2 where e2: "env' = ((w @ evs1) @ evs2, c)"
    and tr2: "trace_ok deps (\<Union>d \<in> set ds. S d) (state t1) evs2" by blast
  have st1: "\<And>y. map_of (state t1) y = (if y \<in> S d then Some Null else map_of (state t) y)"
    using c1 by (simp add: cascaded_def)
  have tr: "trace_ok deps (S d \<union> (\<Union>d \<in> set ds. S d)) (state t) (evs1 @ evs2)"
    using tr1 tr2 st1 by (rule trace_ok_append)
  have ca: "cascaded (S d \<union> (\<Union>d \<in> set ds. S d)) t t'"
    using c1 c2 by (rule cascaded_trans)
  show ?case
  proof (intro conjI exI [of _ "evs1 @ evs2"])
    show "cascaded (\<Union>d \<in> set (d # ds). S d) t t'" using ca by simp
    show "env' = (w @ evs1 @ evs2, c)" using e2 by simp
    show "trace_ok deps (\<Union>d \<in> set (d # ds). S d) (state t) (evs1 @ evs2)" using tr by simp
  qed
qed

lemma resetDependentFields_trace:
  fixes t :: "Event list ReactiveCascadingDropdown"
  assumes "acyclic (dep_rel (dependencies t))" and "listeners t = [recorder]"
    and "resetDependentFields n x (t, (w, c)) = Some (t', env')"
  shows "\<exists>evs. env' = (w @ evs, c)
           \<and> trace_ok (dependencies t) (descendants (dependencies t) x) (state t) evs"
  using assms
proof (induction n arbitrary: x t w t' env')
  case 0
  then show ?case by simp
next
  case (Suc n)
  let ?deps = "dependencies t"
  let ?ds = "filter (\<lambda>dep. x \<in> set (dependsOn dep)) ?deps"
  let ?S = "\<lambda>d. insert (field d) (descendants ?deps (field d))"
  from Suc.prems(3) have run:
    "forEach (resetStep (resetDependentFields n)) ?ds (t, (w, c)) = Some (t', env')"
    by (simp only: resetDependentFields_Suc)
  have step: "cascaded (?S d) u u'
        \<and> (\<exists>evs. envu = (wu @ evs, c) \<and> trace_ok ?deps (?S d) (state u) evs)"
    if u: "dependencies u = ?deps" "listeners u = [recorder]"
      and s: "resetStep (resetDependentFields n) d (u, (wu, c)) = Some (u', envu)"
    for d and u u' :: "Event list ReactiveCascadingDropdown" and wu envu
  proof -
    let ?u1 = "u\<lparr>state := AList.update (field d) Null (state u)\<rparr>"
    from s obtain e2 where
      inner: "resetDependentFields n (field d) (?u1, (wu, c)) = Some (u', e2)"
      and envu: "envu = (if map_of (state u) (field d) \<noteq> Some Null
           then notifyListeners u' (field d) Null (getCurrentState u') e2 else e2)"
      by (rule resetStep_SomeE)
    have casc: "cascaded (?S d) u u'"
      using resetStep_cascaded [OF resetDependentFields_cascaded s] by (simp add: u)
    have c_inner: "cascaded (descendants ?deps (field d)) ?u1 u'"
      using resetDependentFields_cascaded [OF inner] by (simp add: u)
    then have u': "listeners u' = [recorder]" by (simp add: cascaded_def u)
    have "acyclic (dep_rel (dependencies ?u1))" "listeners ?u1 = [recorder]"
      using Suc.prems(1) u by simp_all
    from Suc.IH [OF this inner]
    obtain evs1 where e2: "e2 = (wu @ evs1, c)"
      and tr1': "trace_ok (dependencies ?u1) (descendants (dependencies ?u1) (field d)) (state ?u1) evs1"
      by blast
    from tr1' have tr1: "trace_ok ?deps (descendants ?deps (field d)) (state ?u1) evs1"
      by (simp add: u)
    have st1: "\<And>y. map_of (state ?u1) y = (if y = field d then Some Null else map_of (state u) y)"
      by (simp add: update_conv')
    have view: "map_of (currentSelections (getCurrentState u')) (field d) = Some Null"
      using c_inner by (simp add: getCurrentState_def cascaded_def update_conv')
    have "trace_ok ?deps (?S d) (state u)
        (evs1 @ (if map_of (state u) (field d) \<noteq> Some Null
                 then [(field d, Null, getCurrentState u')] else []))"
      using Suc.prems(1) tr1 st1 view by (rule trace_ok_step)
    moreover have "envu = (wu @ evs1 @ (if map_of (state u) (field d) \<noteq> Some Null
                 then [(field d, Null, getCurrentState u')] else []), c)"
      by (simp add: envu e2 notifyListeners_recorder [OF u'])
    ultimately show ?thesis using casc by (intro conjI exI) 
  qed
  have "cascaded (\<Union>d \<in> set ?ds. ?S d) t t'
      \<and> (\<exists>evs. env' = (w @ evs, c) \<and> trace_ok ?deps (\<Union>d \<in> set ?ds. ?S d) (state t) evs)"
    by (rule forEach_trace [where S = ?S, OF step refl Suc.prems(2) run])
  then show ?case by (simp only: descendants_unfold [of ?deps x])
qed

lemma dropdownAfter_select:
  "select n x v s = Some (view, t', e') \<Longrightarrow> dropdownAfter (select n x v s) = t'"
  by (simp add: dropdownAfter_def)

lemma getFilteredData_agrees:
  "getFilteredData this = filter (agrees (state this)) (data this)"
  by (simp add: getFilteredData_entries agrees_def [abs_def])

lemma agrees_matches_selections:
  assumes "fst ` set (state this) \<subseteq> field ` set (dependencies this)"
  shows "agrees (state this) item = matches_selections this item"
proof
  assume "agrees (state this) item"
  then show "matches_selections this item" by (simp add: matches_selections_def agrees_def)
next
  assume m: "matches_selections this item"
  show "agrees (state this) item"
    unfolding agrees_def
  proof (intro allI impI)
    fix f v assume fv: "map_of (state this) f = Some v \<and> v \<noteq> Null"
    then have "(f, v) \<in> set (state this)" by (auto dest: map_of_SomeD)
    then have "f \<in> fst ` set (state this)" by force
    with assms obtain d where "d \<in> set (dependencies this)" "field d = f" by auto
    with m fv show "map_of item f = Some v" by (auto simp: matches_selections_def)
  qed
qed




section \<open>The fixture\<close>

lemma chainRank_productDependencies:
  assumes "d \<in> set productDependencies" and p: "p \<in> set (dependsOn d)"
  shows "chainRank p < chainRank (field d)"
proof -
  from assms consider "d = \<lparr>field = ''category'', dependsOn = []\<rparr>"
    | "d = \<lparr>field = ''subcategory'', dependsOn = [''category'']\<rparr>"
    | "d = \<lparr>field = ''brand'', dependsOn = [''category'', ''subcategory'']\<rparr>"
    | "d = \<lparr>field = ''name'', dependsOn = [''category'', ''subcategory'', ''brand'']\<rparr>"
    unfolding productDependencies_def by auto
  then show ?thesis
  proof cases
    case 1 with p show ?thesis by simp
  next
    case 2 with p show ?thesis by (simp add: chainRank_def)
  next
    case 3 with p show ?thesis by (auto simp add: chainRank_def)
  next
    case 4 with p show ?thesis by (auto simp add: chainRank_def)
  qed
qed

lemma acyclic_productDependencies: "acyclic (dep_rel productDependencies)"
  by (rule acyclic_dep_relI [where rank = chainRank]) (rule chainRank_productDependencies)

lemma dependencies_laptopsDropdown: "dependencies laptopsDropdown = productDependencies"
  by code_simp

lemma state_laptopsDropdown:
  "state laptopsDropdown =
     [(''category'', Str ''Electronics''), (''subcategory'', Str ''Laptops''),
      (''brand'', Null), (''name'', Null)]"
  by code_simp

lemma acyclic_laptopsDropdown: "acyclic (dep_rel (dependencies laptopsDropdown))"
  by (simp add: dependencies_laptopsDropdown acyclic_productDependencies)

lemma length_dependencies_laptopsDropdown: "length (dependencies laptopsDropdown) < 5"
  by (simp add: dependencies_laptopsDropdown productDependencies_def)

lemma keys_laptopsDropdown:
  "fst ` set (state laptopsDropdown) \<subseteq> field ` set (dependencies laptopsDropdown)"
  by (simp add: state_laptopsDropdown dependencies_laptopsDropdown productDependencies_def)

lemma iPhone_excluded:
  "Product ''1'' ''iPhone 14'' ''Electronics'' ''Smartphones'' ''Apple'' \<in> set (data laptopsDropdown)
   \<and> Product ''1'' ''iPhone 14'' ''Electronics'' ''Smartphones'' ''Apple''
        \<notin> set (getFilteredData laptopsDropdown)"
  by code_simp

lemma find_brand_laptopsDropdown:
  "find (\<lambda>d. field d = ''brand'') (dependencies laptopsDropdown)
     = Some \<lparr>field = ''brand'', dependsOn = [''category'', ''subcategory'']\<rparr>"
  by (simp add: dependencies_laptopsDropdown productDependencies_def)

lemma brands_laptopsDropdown:
  "getOptions laptopsDropdown ''brand'' = [Str ''Apple'', Str ''Dell'', Str ''Lenovo'']"
  by code_simp

lemma dependencies_electronicsDropdown: "dependencies electronicsDropdown = productDependencies"
  by code_simp

lemma state_electronicsDropdown:
  "state electronicsDropdown =
     [(''category'', Str ''Electronics''), (''subcategory'', Null), (''brand'', Null),
      (''name'', Null)]"
  by code_simp

lemma acyclic_electronicsDropdown: "acyclic (dep_rel (dependencies electronicsDropdown))"
  by (simp add: dependencies_electronicsDropdown acyclic_productDependencies)

lemma length_dependencies_electronicsDropdown: "length (dependencies electronicsDropdown) < 5"
  by (simp add: dependencies_electronicsDropdown productDependencies_def)


lemma listeners_newDropdown: "listeners newDropdown = [recorder]"
  by (simp add: newDropdown_def onChange_def constructor_def)

lemma dependencies_newDropdown: "dependencies newDropdown = productDependencies"
  by code_simp

lemma listeners_electronicsDropdown: "listeners electronicsDropdown = [recorder]"
proof -
  have "acyclic (dep_rel (dependencies newDropdown))"
    by (simp add: dependencies_newDropdown acyclic_productDependencies)
  moreover have "length (dependencies newDropdown) < 5"
    by (simp add: dependencies_newDropdown productDependencies_def)
  ultimately have "\<exists>view t' e'.
      select 5 ''category'' (Str ''Electronics'') (newDropdown, ([], [])) = Some (view, t', e')"
    by (rule select_returns)
  then obtain view t' e' where
    sel: "select 5 ''category'' (Str ''Electronics'') (newDropdown, ([], [])) = Some (view, t', e')"
    by blast
  from select_components(3) [OF sel] dropdownAfter_select [OF sel] show ?thesis
    by (simp add: electronicsDropdown_def listeners_newDropdown)
qed

lemma listeners_laptopsDropdown: "listeners laptopsDropdown = [recorder]"
proof -
  from select_returns [OF acyclic_electronicsDropdown length_dependencies_electronicsDropdown]
  obtain view t' e' where
    sel: "select 5 ''subcategory'' (Str ''Laptops'') (electronicsDropdown, ([], [])) = Some (view, t', e')"
    by blast
  from select_components(3) [OF sel] dropdownAfter_select [OF sel] show ?thesis
    by (simp add: laptopsDropdown_def listeners_electronicsDropdown)
qed

lemma state_colorDropdown:
  "state colorDropdown =
     [(''category'', Null), (''subcategory'', Null), (''brand'', Null), (''name'', Null),
      (''color'', Str ''red'')]"
  by code_simp

lemma dependencies_colorDropdown: "dependencies colorDropdown = productDependencies"
  by code_simp

lemma matches_selections_colorDropdown: "matches_selections colorDropdown item"
  by (simp add: matches_selections_def state_colorDropdown dependencies_colorDropdown
      productDependencies_def)

lemma length_data_colorDropdown: "length (data colorDropdown) = 19"
  by code_simp

lemma getFilteredData_colorDropdown: "getFilteredData colorDropdown = []"
  by code_simp

lemma plain_fixture_fields:
  "plain ''category''" "plain ''subcategory''" "plain ''brand''" "plain ''name''"
  by (simp_all add: plain_def Object_prototype_keys_def)





lemma subcategory_below_category:
  "''subcategory'' \<in> descendants (dependencies laptopsDropdown) ''category''"
  unfolding descendants_def dependencies_laptopsDropdown
  by (rule CollectI, rule r_into_trancl) (simp add: dep_rel_iff productDependencies_def)




lemma subcategory_set_laptopsDropdown:
  "map_of (state laptopsDropdown) ''subcategory'' \<noteq> Some Null"
  by (simp add: state_laptopsDropdown)

section \<open>The claims\<close>


text \<open>
  C1, as the code has it. In the fixture, after \<^verbatim>\<open>category = Electronics\<close> and
  \<^verbatim>\<open>subcategory = Laptops\<close> have been selected (brand and name unset),
  \<^verbatim>\<open>select("category", "Sports")\<close> leaves subcategory, brand and name unset and notifies
  twice: the reset of the subcategory, the one field that had a selection, and then the
  category with the value Sports.
\<close>

theorem category_change_scenario:
  "state laptopsDropdown
     = [(''category'', Str ''Electronics''), (''subcategory'', Str ''Laptops''),
        (''brand'', Null), (''name'', Null)]
   \<and> state (dropdownAfter (select 5 ''category'' (Str ''Sports'') (laptopsDropdown, ([], []))))
     = [(''category'', Str ''Sports''), (''subcategory'', Null), (''brand'', Null),
        (''name'', Null)]
   \<and> map headline (worldAfter (select 5 ''category'' (Str ''Sports'') (laptopsDropdown, ([], []))))
     = [(''subcategory'', Null), (''category'', Str ''Sports'')]"
  by code_simp

text \<open>
  C1, as stated, fails: the brand and the name were unset already, and a reset is notified
  only when the old value is not \<^verbatim>\<open>null\<close>; one reset notification, not three, comes
  before the final one.
\<close>

theorem category_change_one_reset_notification:
  "map headline (butlast (worldAfter
      (select 5 ''category'' (Str ''Sports'') (laptopsDropdown, ([], [])))))
     = [(''subcategory'', Null)]"
  by code_simp

text \<open>
  C2, as the code has it. For a declared field with a plain name and prerequisites with
  plain names, \<^verbatim>\<open>getOptions\<close> returns the values, other than \<^verbatim>\<open>null\<close>, that the field
  takes in the records passing the set selections of the prerequisites of its (first)
  declaration, each value once, in ascending order of the values' string forms compared
  by code units: this is the lexicographic order for strings, and for numbers the order
  of the texts they print as.
\<close>

theorem getOptions_values_sorted_by_string:
  assumes "find (\<lambda>d. field d = fld) (dependencies this) = Some dep"
    and "plain fld" and "\<forall>p \<in> set (dependsOn dep). plain p"
  shows "set (getOptions this fld) =
           {v. v \<noteq> Null \<and> (\<exists>item \<in> set (data this).
              passes (state this) (dependsOn dep) item \<and> map_of item fld = Some v)}
         \<and> distinct (getOptions this fld)
         \<and> sorted (map ToString (getOptions this fld))"
  using set_getOptions [OF assms(1)] distinct_getOptions sorted_getOptions by blast

theorem getOptions_values_sorted_by_string_witness:
  "find (\<lambda>d. field d = ''brand'') (dependencies laptopsDropdown)
     = Some \<lparr>field = ''brand'', dependsOn = [''category'', ''subcategory'']\<rparr>
   \<and> plain ''brand'' \<and> plain ''category'' \<and> plain ''subcategory''
   \<and> set (getOptions laptopsDropdown ''brand'') =
           {v. v \<noteq> Null \<and> (\<exists>item \<in> set (data laptopsDropdown).
              passes (state laptopsDropdown) [''category'', ''subcategory''] item
              \<and> map_of item ''brand'' = Some v)}
   \<and> distinct (getOptions laptopsDropdown ''brand'')
   \<and> sorted (map ToString (getOptions laptopsDropdown ''brand''))
   \<and> getOptions laptopsDropdown ''brand'' = [Str ''Apple'', Str ''Dell'', Str ''Lenovo'']"
proof -
  have "\<forall>p \<in> set (dependsOn \<lparr>field = ''brand'', dependsOn = [''category'', ''subcategory'']\<rparr>).
          plain p"
    by (simp add: plain_fixture_fields)
  from getOptions_values_sorted_by_string [OF find_brand_laptopsDropdown
      plain_fixture_fields(3) this]
  show ?thesis
    using find_brand_laptopsDropdown brands_laptopsDropdown plain_fixture_fields by simp
qed

text \<open>
  C2, as stated, fails for numbers: \<^verbatim>\<open>sort()\<close> is called with no comparator, so the numbers
  9 and 10 come out as 10, 9.
\<close>

theorem getOptions_numbers_sorted_as_strings:
  "getOptions sizesDropdown ''size'' = [Num ''10'', Num ''9'']"
  by code_simp







text \<open>
  C5. Cascade completeness. When the declared dependency relation is acyclic and the call
  stack is deeper than the number of declarations, \<^verbatim>\<open>select(x, v)\<close> returns, and in the
  engine it leaves every field that depends on \<open>x\<close>, directly or through other fields,
  has the selection \<^verbatim>\<open>null\<close>.
\<close>

theorem cascade_completeness:
  fixes this :: "'w ReactiveCascadingDropdown"
  assumes "acyclic (dep_rel (dependencies this))" and "length (dependencies this) < depth"
  shows "\<exists>view this' env'. select depth x v (this, env) = Some (view, this', env')
           \<and> (\<forall>y \<in> descendants (dependencies this) x. map_of (state this') y = Some Null)"
proof -
  from select_returns [OF assms] obtain view this' env'
    where sel: "select depth x v (this, env) = Some (view, this', env')" by blast
  have "\<forall>y \<in> descendants (dependencies this) x. map_of (state this') y = Some Null"
    by (simp add: select_state [OF sel])
  with sel show ?thesis by blast
qed

theorem cascade_completeness_witness:
  "acyclic (dep_rel (dependencies laptopsDropdown)) \<and> length (dependencies laptopsDropdown) < 5
   \<and> (\<exists>view this' env'.
         select 5 ''category'' (Str ''Sports'') (laptopsDropdown, ([], [])) = Some (view, this', env')
         \<and> (\<forall>y \<in> descendants (dependencies laptopsDropdown) ''category''.
               map_of (state this') y = Some Null))"
  using cascade_completeness [OF acyclic_laptopsDropdown length_dependencies_laptopsDropdown,
      of "''category''" "Str ''Sports''" "([], [])"]
    acyclic_laptopsDropdown length_dependencies_laptopsDropdown
  by blast

text \<open>
  C6, as the code has it. \<^verbatim>\<open>getFilteredData()\<close> is the dataset filtered, in its own order,
  by the records that have the value of every entry of the Selection State that is set;
  entries that are \<^verbatim>\<open>null\<close> impose nothing, and every record left out lacks the value of
  some set entry. When the Selection State has entries for declared fields only, these
  are the records that agree with the set selection of every declared field.
\<close>

theorem getFilteredData_agrees_with_entries:
  "getFilteredData this = filter (agrees (state this)) (data this)
   \<and> (\<forall>item \<in> set (data this). item \<notin> set (getFilteredData this) \<longrightarrow>
         (\<exists>f v. map_of (state this) f = Some v \<and> v \<noteq> Null \<and> map_of item f \<noteq> Some v))
   \<and> (fst ` set (state this) \<subseteq> field ` set (dependencies this) \<longrightarrow>
         getFilteredData this = filter (matches_selections this) (data this))"
proof (intro conjI ballI impI)
  show "getFilteredData this = filter (agrees (state this)) (data this)"
    by (rule getFilteredData_agrees)
  show "\<exists>f v. map_of (state this) f = Some v \<and> v \<noteq> Null \<and> map_of item f \<noteq> Some v"
    if "item \<in> set (data this)" "item \<notin> set (getFilteredData this)" for item
  proof -
    from that have "\<not> agrees (state this) item" by (simp add: getFilteredData_agrees)
    then show ?thesis unfolding agrees_def by blast
  qed
  show "getFilteredData this = filter (matches_selections this) (data this)"
    if "fst ` set (state this) \<subseteq> field ` set (dependencies this)"
    unfolding getFilteredData_agrees
    by (rule filter_cong) (simp_all add: agrees_matches_selections [OF that])
qed

theorem getFilteredData_agrees_with_entries_witness:
  "getFilteredData laptopsDropdown = filter (agrees (state laptopsDropdown)) (data laptopsDropdown)
   \<and> Product ''1'' ''iPhone 14'' ''Electronics'' ''Smartphones'' ''Apple''
        \<in> set (data laptopsDropdown)
   \<and> Product ''1'' ''iPhone 14'' ''Electronics'' ''Smartphones'' ''Apple''
        \<notin> set (getFilteredData laptopsDropdown)
   \<and> (\<exists>f v. map_of (state laptopsDropdown) f = Some v \<and> v \<noteq> Null
         \<and> map_of (Product ''1'' ''iPhone 14'' ''Electronics'' ''Smartphones'' ''Apple'') f \<noteq> Some v)
   \<and> fst ` set (state laptopsDropdown) \<subseteq> field ` set (dependencies laptopsDropdown)
   \<and> getFilteredData laptopsDropdown
       = filter (matches_selections laptopsDropdown) (data laptopsDropdown)"
  using getFilteredData_agrees_with_entries [of laptopsDropdown] keys_laptopsDropdown
    iPhone_excluded
  by blast

text \<open>
  C6, as stated, fails when the Selection State holds an entry for an undeclared name:
  after \<^verbatim>\<open>select("color", "red")\<close> on a new engine no declared field has a set selection,
  so all 19 records match the declared selections, yet \<^verbatim>\<open>getFilteredData()\<close> is empty,
  since no record has the colour.
\<close>

theorem undeclared_selection_filters_everything:
  "getFilteredData colorDropdown = []
   \<and> length (filter (matches_selections colorDropdown) (data colorDropdown)) = 19"
  by (simp add: getFilteredData_colorDropdown matches_selections_colorDropdown
      length_data_colorDropdown)

text \<open>
  C7. Round trip. When the declared dependency relation is acyclic and the call stack is
  deeper than the number of declarations, \<^verbatim>\<open>select(f, v)\<close> returns, and the current state
  read right after it has the selection \<open>v\<close> for \<open>f\<close>.
\<close>

theorem select_round_trip:
  fixes this :: "'w ReactiveCascadingDropdown"
  assumes "acyclic (dep_rel (dependencies this))" and "length (dependencies this) < depth"
  shows "\<exists>view this' env'. select depth f v (this, env) = Some (view, this', env')
           \<and> map_of (currentSelections (getCurrentState this')) f = Some v"
proof -
  from select_returns [OF assms] obtain view this' env'
    where sel: "select depth f v (this, env) = Some (view, this', env')" by blast
  have "f \<notin> descendants (dependencies this) f"
    by (rule not_own_descendant [OF assms(1)])
  then have "map_of (currentSelections (getCurrentState this')) f = Some v"
    by (simp add: getCurrentState_def select_state [OF sel])
  with sel show ?thesis by blast
qed

theorem select_round_trip_witness:
  "acyclic (dep_rel (dependencies laptopsDropdown)) \<and> length (dependencies laptopsDropdown) < 5
   \<and> (\<exists>view this' env'.
         select 5 ''category'' (Str ''Sports'') (laptopsDropdown, ([], [])) = Some (view, this', env')
         \<and> map_of (currentSelections (getCurrentState this')) ''category'' = Some (Str ''Sports''))"
  using select_round_trip [OF acyclic_laptopsDropdown length_dependencies_laptopsDropdown,
      of "''category''" "Str ''Sports''" "([], [])"]
    acyclic_laptopsDropdown length_dependencies_laptopsDropdown
  by blast



text \<open>
  C9. The selection sequence of a new engine is the list of declared fields in the order
  of the sorted declarations: a rearrangement of the declarations given to the
  constructor, ascending in the number of prerequisites, in which the declarations of
  any one number of prerequisites stand in their original order (the sort is stable).
\<close>

theorem selection_sequence_stable_sort:
  "getSelectionSequence (constructor dat deps)
      = map field (dependencies (constructor dat deps))
   \<and> mset (dependencies (constructor dat deps)) = mset deps
   \<and> sorted (map (\<lambda>d. length (dependsOn d)) (dependencies (constructor dat deps)))
   \<and> (\<forall>k. filter (\<lambda>d. length (dependsOn d) = k) (dependencies (constructor dat deps))
          = filter (\<lambda>d. length (dependsOn d) = k) deps)"
proof (intro conjI)
  show "getSelectionSequence (constructor dat deps)
      = map field (dependencies (constructor dat deps))"
    by (simp add: getSelectionSequence_def)
  show "mset (dependencies (constructor dat deps)) = mset deps"
    by (simp add: sortDependencies_sort_key)
  show "sorted (map (\<lambda>d. length (dependsOn d)) (dependencies (constructor dat deps)))"
    by (simp add: sortDependencies_sort_key)
  show "\<forall>k. filter (\<lambda>d. length (dependsOn d) = k) (dependencies (constructor dat deps))
          = filter (\<lambda>d. length (dependsOn d) = k) deps"
    by (simp add: sortDependencies_sort_key sort_key_stable)
qed

text \<open>
  C10. With an acyclic dependency relation, a call stack deeper than the number of
  declarations and the recording listener registered, \<^verbatim>\<open>select(x, v)\<close> returns and adds
  to the recorded events the reset notifications followed, last, by the notification of
  \<open>x\<close> with the value \<open>v\<close> and the returned view. Every reset notification carries
  \<^verbatim>\<open>null\<close> and a view in which its field is \<^verbatim>\<open>null\<close>, for a field that depends on \<open>x\<close>
  and whose selection was not \<^verbatim>\<open>null\<close> before the call; every such field is notified,
  and once only; and the notifications are in post-order: before the notification of a
  field come the notifications of all the fields depending on it, directly or through
  other fields, whose selection was not \<^verbatim>\<open>null\<close> before the call.
\<close>

theorem reset_notifications_post_order:
  fixes this :: "Event list ReactiveCascadingDropdown"
  assumes ac: "acyclic (dep_rel (dependencies this))"
    and depth: "length (dependencies this) < depth"
    and ls: "listeners this = [recorder]"
  shows "\<exists>view this' resets.
           select depth x v (this, (w, c)) = Some (view, this', (w @ resets @ [(x, v, view)], c))
           \<and> (\<forall>ev \<in> set resets. reset_event ev \<and> fst ev \<in> descendants (dependencies this) x
                 \<and> map_of (state this) (fst ev) \<noteq> Some Null)
           \<and> (\<forall>y \<in> descendants (dependencies this) x.
                 map_of (state this) y \<noteq> Some Null \<longrightarrow> y \<in> fst ` set resets)
           \<and> distinct (map fst resets)
           \<and> post_order (dependencies this) (state this) resets"
proof -
  let ?t1 = "this\<lparr>state := AList.update x v (state this)\<rparr>"
  let ?deps = "dependencies this"
  from select_returns [OF ac depth] obtain view this' env'
    where sel: "select depth x v (this, (w, c)) = Some (view, this', env')" by blast
  from sel obtain e2 where
    run: "resetDependentFields depth x (?t1, (w, c)) = Some (this', e2)"
    and view: "view = getCurrentState this'"
    and env': "env' = notifyListeners this' x v view e2"
    by (rule select_SomeE)
  have "acyclic (dep_rel (dependencies ?t1))" "listeners ?t1 = [recorder]"
    using ac ls by simp_all
  from resetDependentFields_trace [OF this run]
  obtain resets where e2: "e2 = (w @ resets, c)"
    and tr': "trace_ok (dependencies ?t1) (descendants (dependencies ?t1) x) (state ?t1) resets"
    by blast
  from tr' have tr: "trace_ok ?deps (descendants ?deps x) (state ?t1) resets" by simp
  have same: "map_of (state ?t1) y = map_of (state this) y" if "y \<in> descendants ?deps x" for y
  proof -
    from that have "y \<noteq> x" using not_own_descendant [OF ac, of x] by auto
    then show ?thesis by (simp add: update_conv')
  qed
  have ls': "listeners this' = [recorder]"
    using select_components(3) [OF sel] ls by simp
  have 1: "select depth x v (this, (w, c)) = Some (view, this', (w @ resets @ [(x, v, view)], c))"
    by (simp add: sel env' e2 notifyListeners_recorder [OF ls'])
  have 2: "\<forall>ev \<in> set resets. reset_event ev \<and> fst ev \<in> descendants ?deps x
      \<and> map_of (state this) (fst ev) \<noteq> Some Null"
  proof
    fix ev assume "ev \<in> set resets"
    from trace_ok_event [OF tr this] same [of "fst ev"]
    show "reset_event ev \<and> fst ev \<in> descendants ?deps x
      \<and> map_of (state this) (fst ev) \<noteq> Some Null" by simp
  qed
  have 3: "\<forall>y \<in> descendants ?deps x. map_of (state this) y \<noteq> Some Null \<longrightarrow> y \<in> fst ` set resets"
  proof (intro ballI impI)
    fix y assume y: "y \<in> descendants ?deps x" "map_of (state this) y \<noteq> Some Null"
    then have "map_of (state ?t1) y \<noteq> Some Null" using same [of y] by simp
    with tr y(1) show "y \<in> fst ` set resets" by (rule trace_ok_all)
  qed
  have 4: "distinct (map fst resets)" by (rule trace_ok_distinct [OF tr])
  have 5: "post_order ?deps (state this) resets"
    unfolding post_order_def
  proof (intro allI impI ballI)
    fix pre ev post y
    assume split: "resets = pre @ ev # post"
      and y: "y \<in> descendants ?deps (fst ev)" "map_of (state this) y \<noteq> Some Null"
    from split have "ev \<in> set resets" by simp
    then have "fst ev \<in> descendants ?deps x" using 2 by blast
    from this y(1) have "y \<in> descendants ?deps x" by (rule descendants_trans)
    with y(2) have "map_of (state ?t1) y \<noteq> Some Null" using same [of y] by simp
    with trace_ok_post_order [OF tr] split y(1) show "y \<in> fst ` set pre"
      by (rule post_orderD)
  qed
  from 1 2 3 4 5 show ?thesis by (intro exI conjI)
qed

theorem reset_notifications_post_order_witness:
  "acyclic (dep_rel (dependencies laptopsDropdown))
   \<and> length (dependencies laptopsDropdown) < 5
   \<and> listeners laptopsDropdown = [recorder]
   \<and> (\<exists>view this' resets.
         select 5 ''category'' (Str ''Sports'') (laptopsDropdown, ([], []))
           = Some (view, this', ([] @ resets @ [(''category'', Str ''Sports'', view)], []))
         \<and> (\<forall>ev \<in> set resets.
               reset_event ev \<and> fst ev \<in> descendants (dependencies laptopsDropdown) ''category''
               \<and> map_of (state laptopsDropdown) (fst ev) \<noteq> Some Null)
         \<and> ''subcategory'' \<in> fst ` set resets
         \<and> distinct (map fst resets)
         \<and> post_order (dependencies laptopsDropdown) (state laptopsDropdown) resets)"
proof -
  from reset_notifications_post_order [OF acyclic_laptopsDropdown
      length_dependencies_laptopsDropdown listeners_laptopsDropdown,
      of "''category''" "Str ''Sports''" "[]" "[]"]
  obtain view this' resets where
    1: "select 5 ''category'' (Str ''Sports'') (laptopsDropdown, ([], []))
           = Some (view, this', ([] @ resets @ [(''category'', Str ''Sports'', view)], []))"
    and 2: "\<forall>ev \<in> set resets.
               reset_event ev \<and> fst ev \<in> descendants (dependencies laptopsDropdown) ''category''
               \<and> map_of (state laptopsDropdown) (fst ev) \<noteq> Some Null"
    and 3: "\<forall>y \<in> descendants (dependencies laptopsDropdown) ''category''.
                 map_of (state laptopsDropdown) y \<noteq> Some Null \<longrightarrow> y \<in> fst ` set resets"
    and 4: "distinct (map fst resets)"
    and 5: "post_order (dependencies laptopsDropdown) (state laptopsDropdown) resets"
    by (elim exE conjE)
  from 3 [rule_format, OF subcategory_below_category subcategory_set_laptopsDropdown]
  have 6: "''subcategory'' \<in> fst ` set resets" .
  from 1 2 6 4 5 have "\<exists>view this' resets.
         select 5 ''category'' (Str ''Sports'') (laptopsDropdown, ([], []))
           = Some (view, this', ([] @ resets @ [(''category'', Str ''Sports'', view)], []))
         \<and> (\<forall>ev \<in> set resets.
               reset_event ev \<and> fst ev \<in> descendants (dependencies laptopsDropdown) ''category''
               \<and> map_of (state laptopsDropdown) (fst ev) \<noteq> Some Null)
         \<and> ''subcategory'' \<in> fst ` set resets
         \<and> distinct (map fst resets)
         \<and> post_order (dependencies laptopsDropdown) (state laptopsDropdown) resets"
    by (intro exI conjI)
  then show ?thesis
    by (intro conjI)
       (rule acyclic_laptopsDropdown length_dependencies_laptopsDropdown
          listeners_laptopsDropdown, assumption?)+
qed

end
